theory Spec2Isabelle
  imports Main "HOL-Library.Word" "HOL-Library.Multiset"
begin

unbundle bit_operations_syntax

section \<open>Strings and numbers of the source language\<close>

text \<open>
  A string of the source is a sequence of 16-bit code units: \<open>length\<close> counts code
  units, \<open>charCodeAt\<close> reads one, and a regular expression without the \<open>u\<close> flag
  matches code units. A \<open>Uint8Array\<close> is a list of bytes.
\<close>

type_synonym jsstring = "16 word list"
type_synonym bytes = "8 word list"

text \<open>An ASCII literal of the source, as code units.\<close>

definition str :: "string \<Rightarrow> jsstring" where
  "str s = map (\<lambda>c. of_nat (of_char c)) s"

text \<open>
  The numbers of \<open>_e\<close> are integers far below \<open>2 ^ 53\<close>, so they are modelled as
  \<open>int\<close> and \<open>+\<close> is exact. The bitwise operators convert their operands to 32 bits
  (\<open>ToInt32\<close>), work on the bit pattern and return a signed 32-bit value; \<open>>>>\<close>
  returns an unsigned one.
\<close>

definition ToInt32 :: "int \<Rightarrow> 32 word" where
  "ToInt32 x = word_of_int x"

definition js_shl :: "int \<Rightarrow> nat \<Rightarrow> int" where
  "js_shl x n = sint (push_bit (n mod 32) (ToInt32 x))"

definition js_and :: "int \<Rightarrow> int \<Rightarrow> int" where
  "js_and x y = sint (ToInt32 x AND ToInt32 y)"

definition js_or :: "int \<Rightarrow> int \<Rightarrow> int" where
  "js_or x y = sint (ToInt32 x OR ToInt32 y)"

definition js_xor :: "int \<Rightarrow> int \<Rightarrow> int" where
  "js_xor x y = sint (ToInt32 x XOR ToInt32 y)"

definition js_ushr :: "int \<Rightarrow> nat \<Rightarrow> int" where
  "js_ushr x n = uint (drop_bit (n mod 32) (ToInt32 x))"

section \<open>The integer hash \<open>_e\<close>\<close>

definition HASH_MASK_1 :: int where
  "HASH_MASK_1 = 268435455"

definition HASH_MASK_2 :: int where
  "HASH_MASK_2 = 266338304"

text \<open>\<open>charCodeAt\<close> inside the bounds of the string (the loop of \<open>_e\<close> never leaves them).\<close>

definition charCodeAt :: "jsstring \<Rightarrow> nat \<Rightarrow> int" where
  "charCodeAt nt i = uint (nt ! i)"

text \<open>One round of the loop body of \<open>_e\<close>, on the accumulator \<open>at\<close> and the code \<open>st\<close>.\<close>

definition e_body :: "int \<Rightarrow> int \<Rightarrow> int" where
  "e_body at st =
     (let at1 = js_or (js_and (js_shl at 6) HASH_MASK_1 + st + js_shl st 14) 0;
          it = js_and at1 HASH_MASK_2
      in if it \<noteq> 0 then js_xor at1 (js_ushr it 21) else at1)"

text \<open>
  The loop \<open>for (let i = nt.length - 1; i >= 0; i--)\<close>: \<open>e_loop nt k at\<close> runs the
  rounds for the indices \<open>k - 1\<close> down to \<open>0\<close>.
\<close>

fun e_loop :: "jsstring \<Rightarrow> nat \<Rightarrow> int \<Rightarrow> int" where
  "e_loop nt 0 at = at"
| "e_loop nt (Suc i) at = e_loop nt i (e_body at (charCodeAt nt i))"

definition hash_e :: "jsstring \<Rightarrow> int" where
  "hash_e nt = e_loop nt (length nt) 0"

subsection \<open>The reference computation of the specification\<close>

text \<open>
  The specification describes the hash with integer arithmetic: a truncation to the
  signed 32-bit range, shifts that wrap to 32 bits, and a zero-filled right shift of
  the 32-bit pattern.
\<close>

definition truncateToSigned32 :: "int \<Rightarrow> int" where
  "truncateToSigned32 x = (x + 2 ^ 31) mod 2 ^ 32 - 2 ^ 31"

definition spec_shl :: "int \<Rightarrow> nat \<Rightarrow> int" where
  "spec_shl a n = truncateToSigned32 (a * 2 ^ n)"

definition spec_lshr :: "int \<Rightarrow> nat \<Rightarrow> int" where
  "spec_lshr a n = (a mod 2 ^ 32) div 2 ^ n"

definition spec_round :: "int \<Rightarrow> int \<Rightarrow> int" where
  "spec_round a c =
     (let a1 = truncateToSigned32 ((spec_shl a 6 AND 268435455) + c + spec_shl c 14);
          folded = a1 AND 266338304
      in if folded \<noteq> 0 then a1 XOR spec_lshr folded 21 else a1)"

text \<open>The scan from the last character to the first, starting from \<open>0\<close>.\<close>

definition spec_hash :: "jsstring \<Rightarrow> int" where
  "spec_hash s = foldr (\<lambda>c a. spec_round a (uint c)) s 0"

section \<open>The text segmenter \<open>splitText\<close>\<close>

text \<open>The character classes \<open>[\<dots>.?!\n]\<close> (with the three full-width marks) and \<open>[,\<dots>]\<close>.\<close>

definition is_sentence_delimiter :: "16 word \<Rightarrow> bool" where
  "is_sentence_delimiter c \<longleftrightarrow> c \<in> {0x3002, 0xFF1F, 0xFF01, 0x2E, 0x3F, 0x21, 0x0A}"

definition is_comma :: "16 word \<Rightarrow> bool" where
  "is_comma c \<longleftrightarrow> c \<in> {0x2C, 0xFF0C}"

text \<open>
  \<open>s.split(/([\<dots>])/)\<close> for a class of single code units with a capture group: the
  string is cut at every code unit of the class, and each such code unit is kept as an
  element of its own between the pieces. \<open>piece\<close> holds the code units read since the
  last cut.
\<close>

fun split_capture :: "(16 word \<Rightarrow> bool) \<Rightarrow> jsstring \<Rightarrow> jsstring \<Rightarrow> jsstring list" where
  "split_capture d piece [] = [piece]"
| "split_capture d piece (c # cs) =
     (if d c then piece # [c] # split_capture d [] cs
      else split_capture d (piece @ [c]) cs)"

definition js_split :: "(16 word \<Rightarrow> bool) \<Rightarrow> jsstring \<Rightarrow> jsstring list" where
  "js_split d s = split_capture d [] s"

text \<open>
  The loop \<open>for (let i = 0; i < sentenceParts.length; i += 2)\<close>: a piece and the
  delimiter after it are joined; a missing element reads as the empty string, and a pair
  of two empty strings is skipped.
\<close>

fun regroup :: "jsstring list \<Rightarrow> jsstring list" where
  "regroup (content # delimiter # rest) =
     (if content \<noteq> [] \<or> delimiter \<noteq> [] then [content @ delimiter] else []) @ regroup rest"
| "regroup [content] = (if content \<noteq> [] then [content] else [])"
| "regroup [] = []"

definition sentences :: "jsstring \<Rightarrow> jsstring list" where
  "sentences text = regroup (js_split is_sentence_delimiter text)"

text \<open>
  The inner loop over \<open>commaParts\<close>, with the buffer \<open>current\<close>; the value is the list
  of strings pushed to \<open>result\<close>, the push after the loop included.
\<close>

fun commaLoop :: "int \<Rightarrow> jsstring \<Rightarrow> jsstring list \<Rightarrow> jsstring list" where
  "commaLoop maxLen current [] = (if current \<noteq> [] then [current] else [])"
| "commaLoop maxLen current (part # parts) =
     (if int (length (current @ part)) \<le> maxLen then commaLoop maxLen (current @ part) parts
      else (if current \<noteq> [] then [current] else []) @ commaLoop maxLen part parts)"

text \<open>The body of the loop over \<open>sentences\<close>: what one sentence adds to \<open>result\<close>.\<close>

definition splitSentence :: "int \<Rightarrow> jsstring \<Rightarrow> jsstring list" where
  "splitSentence maxLen sentence =
     (if int (length sentence) \<le> maxLen then [sentence]
      else commaLoop maxLen [] (js_split is_comma sentence))"

text \<open>White space and line terminators, which \<open>trim\<close> strips from both ends.\<close>

definition is_whitespace :: "16 word \<Rightarrow> bool" where
  "is_whitespace c \<longleftrightarrow>
     c \<in> {0x09, 0x0A, 0x0B, 0x0C, 0x0D, 0x20, 0xA0, 0x1680, 0x2028, 0x2029, 0x202F, 0x205F,
          0x3000, 0xFEFF} \<or> (0x2000 \<le> c \<and> c \<le> 0x200A)"

definition trim :: "jsstring \<Rightarrow> jsstring" where
  "trim s = rev (dropWhile is_whitespace (rev (dropWhile is_whitespace s)))"

text \<open>\<open>result\<close> before the final filter, and \<open>splitText\<close> itself.\<close>

definition splitResult :: "jsstring \<Rightarrow> int \<Rightarrow> jsstring list" where
  "splitResult text maxLen = concat (map (splitSentence maxLen) (sentences text))"

definition splitText :: "jsstring \<Rightarrow> int \<Rightarrow> jsstring list" where
  "splitText text maxLen =
     (if int (length text) \<le> maxLen then [text]
      else filter (\<lambda>s. length (trim s) > 0) (splitResult text maxLen))"

text \<open>
  A cut between two consecutive segments \<open>x\<close> and \<open>y\<close> that falls directly after a
  comma, directly after a sentence delimiter, or directly before a comma.
\<close>

definition cut_ok :: "jsstring \<Rightarrow> jsstring \<Rightarrow> bool" where
  "cut_ok x y \<longleftrightarrow> is_comma (last x) \<or> is_sentence_delimiter (last x) \<or> is_comma (hd y)"

section \<open>The request headers \<open>getHeaders\<close>\<close>

definition ua :: jsstring where
  "ua = str ''Mozilla/5.0 (Windows NT 10.0; Win64; x64) AppleWebKit/537.36 (KHTML, like Gecko) Chrome/117.0.0.0 Safari/537.36''"

text \<open>
  \<open>md5\<close> is the digest of the standard library, a function from strings to strings.
  \<open>timestamp\<close> and \<open>accessToken\<close> are what \<open>getIso8601Time()\<close> and \<open>generateMid()\<close>
  return in this call: they read the clock and \<open>Math.random\<close>. The object literal is
  the list of its properties in the order they are written.
\<close>

definition getHeaders ::
  "(jsstring \<Rightarrow> jsstring) \<Rightarrow> jsstring \<Rightarrow> jsstring \<Rightarrow> (jsstring \<times> jsstring) list" where
  "getHeaders md5 timestamp accessToken =
     (let device = str ''Web'';
          ver = str ''1.2'';
          zmUa = md5 ua;
          zmTokenStr = device @ timestamp @ ver @ accessToken @ zmUa;
          zmToken = md5 zmTokenStr
      in [(str ''device-platform'', device),
          (str ''timestamp'', timestamp),
          (str ''access-token'', accessToken),
          (str ''zm-token'', zmToken),
          (str ''zm-ver'', ver),
          (str ''zm-ua'', zmUa),
          (str ''User-Agent'', ua)])"

section \<open>Fetching the audio of the segments\<close>

text \<open>
  What the upstream call for one segment does, as its reader loop sees it:
  \<^item> \<open>Body chunks\<close>: \<open>getAudio\<close> returns a response with a body, the reads deliver
    \<open>chunks\<close> and then \<open>done\<close>;
  \<^item> \<open>NoBody\<close>: the response has no body, so there is no reader;
  \<^item> \<open>Failed chunks\<close>: an exception, after the reads had delivered \<open>chunks\<close>. \<open>getAudio\<close>
    throwing (a status that is not OK, a network error, the timeout before the response)
    is \<open>Failed []\<close>; a read that throws (a network error or the timeout while the body
    arrives) is \<open>Failed\<close> with the chunks read before.
  The call for a segment is made once; its outcome is given by the text, the voice and
  the index of the segment.
\<close>

datatype fetch_outcome = Failed "bytes list" | NoBody | Body "bytes list"

type_synonym upstream = "jsstring \<Rightarrow> jsstring \<Rightarrow> nat \<Rightarrow> fetch_outcome"

subsection \<open>Serial mode\<close>

text \<open>
  One round of the loop of \<open>getAudioChunksSerial\<close> yields every chunk as it is read; an
  exception ends the round, and the loop goes on with the next segment.
\<close>

fun delivered :: "fetch_outcome \<Rightarrow> bytes list" where
  "delivered (Body chunks) = chunks"
| "delivered NoBody = []"
| "delivered (Failed chunks) = chunks"

definition getAudioChunksSerial :: "upstream \<Rightarrow> jsstring list \<Rightarrow> jsstring \<Rightarrow> bytes list" where
  "getAudioChunksSerial up texts voice =
     concat (map (\<lambda>i. delivered (up (texts ! i) voice i)) [0..<length texts])"

subsection \<open>Batched mode\<close>

text \<open>
  The task \<open>fetchOne(index)\<close> touches the shared array \<open>results\<close> once, in its last
  step: it stores the merged chunks at its own index when the whole body was read, and
  leaves the array as it is when there was no body or an exception was caught.
\<close>

definition fetchOne ::
  "upstream \<Rightarrow> jsstring list \<Rightarrow> jsstring \<Rightarrow> nat \<Rightarrow> bytes option list \<Rightarrow> bytes option list" where
  "fetchOne up texts voice index results =
     (case up (texts ! index) voice index of
        Body chunks \<Rightarrow> results[index := Some (concat chunks)]
      | NoBody \<Rightarrow> results
      | Failed chunks \<Rightarrow> results)"

text \<open>
  The events of a run: the call \<open>fetchOne(i)\<close> that starts a task, the end of task
  \<open>i\<close> (its promise settles), and the \<open>yield\<close> of \<open>results[i]\<close>.
\<close>

datatype event = Launch nat | Settle nat | Yield nat bytes

text \<open>The loop \<open>for (let i = batchStart; i < batchEnd; i++) if (results[i]) yield results[i]\<close>;
  a \<open>Uint8Array\<close> is truthy also when it is empty.\<close>

definition yieldBatch :: "bytes option list \<Rightarrow> nat \<Rightarrow> nat \<Rightarrow> event list" where
  "yieldBatch results batchStart batchEnd =
     concat (map (\<lambda>i. case results ! i of Some buf \<Rightarrow> [Yield i buf] | None \<Rightarrow> [])
       [batchStart..<batchEnd])"

text \<open>
  The loop over the batches. The tasks of a batch are started in index order and run
  interleaved; \<open>sched batchStart\<close> is the order in which they end. \<open>await Promise.all\<close>
  resumes the generator when all of them have ended, and only then are the results of
  the batch yielded and the next batch started. The loop is entered with
  \<open>1 < concurrency\<close> only; for \<open>concurrency = 0\<close>, which never reaches it, the function
  is fixed as the empty run.
\<close>

function batchLoop ::
  "upstream \<Rightarrow> (nat \<Rightarrow> nat list) \<Rightarrow> jsstring list \<Rightarrow> jsstring \<Rightarrow> nat \<Rightarrow> nat \<Rightarrow>
   bytes option list \<Rightarrow> event list" where
  "batchLoop up sched texts voice concurrency batchStart results =
     (if batchStart < length texts \<and> 0 < concurrency then
        (let batchEnd = min (batchStart + concurrency) (length texts);
             order = sched batchStart;
             results' = fold (fetchOne up texts voice) order results
         in map Launch [batchStart..<batchEnd] @ map Settle order @
            yieldBatch results' batchStart batchEnd @
            batchLoop up sched texts voice concurrency (batchStart + concurrency) results')
      else [])"
  by pat_completeness auto
termination
  by (relation "measure (\<lambda>(up, sched, texts, voice, concurrency, batchStart, results).
        length texts - batchStart)") auto

declare batchLoop.simps [simp del]

text \<open>Every started task ends once: the order of a batch is a permutation of its indices.\<close>

definition settles_each_task :: "(nat \<Rightarrow> nat list) \<Rightarrow> nat \<Rightarrow> nat \<Rightarrow> bool" where
  "settles_each_task sched concurrency n \<longleftrightarrow>
     (\<forall>batchStart. mset (sched batchStart) = mset [batchStart..<min (batchStart + concurrency) n])"

text \<open>The buffers a run yields, each with the index of its segment.\<close>

fun yields :: "event list \<Rightarrow> (nat \<times> bytes) list" where
  "yields [] = []"
| "yields (Yield i buf # evs) = (i, buf) # yields evs"
| "yields (Launch i # evs) = yields evs"
| "yields (Settle i # evs) = yields evs"

definition batchRun ::
  "upstream \<Rightarrow> (nat \<Rightarrow> nat list) \<Rightarrow> jsstring list \<Rightarrow> jsstring \<Rightarrow> int \<Rightarrow> event list" where
  "batchRun up sched texts voice concurrency =
     batchLoop up sched texts voice (nat concurrency) 0 (replicate (length texts) None)"

text \<open>\<open>getAudioChunks\<close>, drained: the sequence of the buffers it yields.\<close>

definition getAudioChunks ::
  "upstream \<Rightarrow> (nat \<Rightarrow> nat list) \<Rightarrow> jsstring list \<Rightarrow> jsstring \<Rightarrow> int \<Rightarrow> bytes list" where
  "getAudioChunks up sched texts voice concurrency =
     (if concurrency \<le> 1 \<or> length texts \<le> 2 then getAudioChunksSerial up texts voice
      else map snd (yields (batchRun up sched texts voice concurrency)))"

text \<open>The buffer a segment contributes in batched mode, if any.\<close>

fun assembled :: "fetch_outcome \<Rightarrow> bytes option" where
  "assembled (Body chunks) = Some (concat chunks)"
| "assembled NoBody = None"
| "assembled (Failed chunks) = None"

section \<open>Properties of the integer hash\<close>

lemma js_or_0: "js_or z 0 = truncateToSigned32 z"
  unfolding js_or_def ToInt32_def truncateToSigned32_def
  by (simp add: int_word_sint)

lemma js_shl_spec: "n < 32 \<Longrightarrow> js_shl a n = spec_shl a n"
proof -
  assume "n < 32"
  then have "js_shl a n = sint (word_of_int (a * 2 ^ n) :: 32 word)"
    unfolding js_shl_def ToInt32_def by (simp add: push_bit_eq_mult)
  also have "\<dots> = (a * 2 ^ n + 2 ^ 31) mod 2 ^ 32 - 2 ^ 31"
    by (simp only: int_word_sint) simp
  finally show ?thesis
    unfolding truncateToSigned32_def spec_shl_def .
qed

lemma signed_take_bit_xor_int: "signed_take_bit n (a XOR b :: int) = signed_take_bit n a XOR signed_take_bit n b"
  by (rule bit_eqI) (auto simp: bit_signed_take_bit_iff bit_xor_iff)

lemma truncateToSigned32_range: "- (2 ^ 31) \<le> truncateToSigned32 x \<and> truncateToSigned32 x < 2 ^ 31"
  unfolding truncateToSigned32_def
  using pos_mod_bound [of "2 ^ 32" "x + 2 ^ 31"] pos_mod_sign [of "2 ^ 32" "x + 2 ^ 31"] by simp

lemma js_and_mask: "0 \<le> m \<Longrightarrow> m < 2 ^ 31 \<Longrightarrow> js_and x m = x AND m"
proof -
  assume m: "0 \<le> m" "m < 2 ^ 31"
  have "0 \<le> x AND m" using m by (simp add: and_nonnegative_int_iff)
  moreover have "x AND m \<le> m" using m by (simp add: AND_upper2)
  ultimately have "- (2 ^ 31) \<le> x AND m" "x AND m < 2 ^ 31"
    using m by linarith+
  then have "signed_take_bit 31 (x AND m) = x AND m"
    by (rule signed_take_bit_int_eq_self)
  then show ?thesis
    unfolding js_and_def ToInt32_def by (simp add: word_wi_log_defs sint_sbintrunc')
qed

lemma js_xor_range:
  assumes "- (2 ^ 31) \<le> a" "a < 2 ^ 31" "- (2 ^ 31) \<le> r" "r < 2 ^ 31"
  shows "js_xor a r = a XOR r"
proof -
  have "signed_take_bit 31 (a XOR r) = a XOR r"
    using assms by (simp add: signed_take_bit_xor_int signed_take_bit_int_eq_self)
  then show ?thesis
    unfolding js_xor_def ToInt32_def by (simp add: word_wi_log_defs sint_sbintrunc')
qed

lemma js_ushr_spec: "n < 32 \<Longrightarrow> js_ushr x n = spec_lshr x n"
proof -
  assume "n < 32"
  then have "js_ushr x n = drop_bit n (take_bit 32 x)"
    unfolding js_ushr_def ToInt32_def
    by (simp only: unsigned_drop_bit_eq uint_word_of_int_eq mod_less) simp
  then show ?thesis
    unfolding spec_lshr_def by (simp add: take_bit_eq_mod drop_bit_eq_div)
qed

lemma spec_lshr_range: "0 \<le> spec_lshr x 21 \<and> spec_lshr x 21 < 2 ^ 11"
proof -
  have "0 \<le> x mod 2 ^ 32" "x mod 2 ^ 32 < 2 ^ 32" by simp_all
  then show ?thesis unfolding spec_lshr_def
    by (auto simp: pos_imp_zdiv_nonneg_iff intro: zdiv_mono1) 
qed

lemma e_body_spec: "e_body at st = spec_round at st"
proof -
  let ?a1 = "truncateToSigned32 ((spec_shl at 6 AND 268435455) + st + spec_shl st 14)"
  have a1: "js_or (js_and (js_shl at 6) HASH_MASK_1 + st + js_shl st 14) 0 = ?a1"
    by (simp add: js_or_0 js_shl_spec js_and_mask HASH_MASK_1_def)
  have it: "js_and ?a1 HASH_MASK_2 = ?a1 AND 266338304"
    by (simp add: js_and_mask HASH_MASK_2_def)
  have x: "js_xor ?a1 (js_ushr (?a1 AND 266338304) 21) = ?a1 XOR spec_lshr (?a1 AND 266338304) 21"
    using truncateToSigned32_range [of "(spec_shl at 6 AND 268435455) + st + spec_shl st 14"]
      spec_lshr_range [of "?a1 AND 266338304"]
    by (simp add: js_ushr_spec js_xor_range)
  show ?thesis
    unfolding e_body_def spec_round_def a1 it Let_def x ..
qed

lemma e_loop_foldr: "k \<le> length nt \<Longrightarrow> e_loop nt k at = foldr (\<lambda>c a. e_body a (uint c)) (take k nt) at"
proof (induction k arbitrary: at)
  case 0
  then show ?case by simp
next
  case (Suc k)
  then have "take (Suc k) nt = take k nt @ [nt ! k]"
    by (simp add: take_Suc_conv_app_nth)
  with Suc show ?case by (simp add: charCodeAt_def)
qed

lemma e_body_range: "- (2 ^ 31) \<le> e_body at st \<and> e_body at st < 2 ^ 31"
  unfolding e_body_def Let_def js_xor_def js_or_def
  using sint_ge [where 'a = 32] sint_lt [where 'a = 32]
  by auto

lemma e_loop_range: "- (2 ^ 31) \<le> at \<Longrightarrow> at < 2 ^ 31 \<Longrightarrow> - (2 ^ 31) \<le> e_loop nt k at \<and> e_loop nt k at < 2 ^ 31"
proof (induction k arbitrary: at)
  case 0
  then show ?case by simp
next
  case (Suc k)
  show ?case
    using Suc.IH [of "e_body at (charCodeAt nt k)"] e_body_range [of at "charCodeAt nt k"]
    by simp
qed

text \<open>
  Claim C3. The hash \<open>_e\<close> is a function of its argument alone, and for every string
  it is the reference computation of the specification: the accumulator starts at \<open>0\<close>,
  the string is scanned from its last code unit to its first, each round truncates
  \<open>((a << 6) & 0x0FFFFFFF) + c + (c << 14)\<close> to signed 32 bits and folds the bits under
  \<open>0x0FE00000\<close> back in, shifted right by 21 with zero fill, when they are not all
  zero. On the empty string the result is \<open>0\<close>.
\<close>

theorem hash_e_refines_spec: "hash_e s = spec_hash s \<and> hash_e [] = 0"
  unfolding hash_e_def spec_hash_def by (simp add: e_loop_foldr e_body_spec)

text \<open>
  Claim C9. For every string the hash \<open>_e\<close> lies in the signed 32-bit range, also
  when the last round took the XOR fold.
\<close>

theorem hash_e_int32: "- (2 ^ 31) \<le> hash_e s \<and> hash_e s \<le> 2 ^ 31 - 1"
  using e_loop_range [of 0 s "length s"] unfolding hash_e_def by simp

section \<open>Properties of the text segmenter\<close>

lemma concat_split_capture: "concat (split_capture d piece s) = piece @ s"
  by (induction s arbitrary: piece) simp_all

lemma concat_js_split: "concat (js_split d s) = s"
  by (simp add: js_split_def concat_split_capture)

lemma concat_regroup: "concat (regroup ps) = concat ps"
  by (induction ps rule: regroup.induct) simp_all

lemma concat_sentences: "concat (sentences text) = text"
  by (simp add: sentences_def concat_regroup concat_js_split)

lemma concat_commaLoop: "concat (commaLoop maxLen current parts) = current @ concat parts"
  by (induction parts arbitrary: current) simp_all

lemma concat_splitSentence: "concat (splitSentence maxLen sentence) = sentence"
  by (simp add: splitSentence_def concat_commaLoop concat_js_split)

lemma concat_concat_map: "(\<And>x. concat (f x) = x) \<Longrightarrow> concat (concat (map f xs)) = concat xs"
  by (induction xs) simp_all

lemma concat_splitResult: "concat (splitResult text maxLen) = text"
  unfolding splitResult_def
  by (simp add: concat_concat_map concat_splitSentence concat_sentences)

text \<open>Delimiters end the sentences of tier 1.\<close>

lemma regroup_split_capture_delims:
  "\<forall>c\<in>set piece. \<not> d c \<Longrightarrow> s \<in> set (regroup (split_capture d piece cs)) \<Longrightarrow>
   c \<in> set (butlast s) \<Longrightarrow> \<not> d c"
proof (induction cs arbitrary: piece)
  case Nil
  then show ?case by (auto split: if_splits dest: in_set_butlastD)
next
  case (Cons a cs)
  show ?case
  proof (cases "d a")
    case True
    with Cons.prems have "s = piece @ [a] \<or> s \<in> set (regroup (split_capture d [] cs))"
      by (auto split: if_splits)
    then show ?thesis
    proof
      assume "s = piece @ [a]"
      with Cons.prems show ?thesis by simp
    next
      assume "s \<in> set (regroup (split_capture d [] cs))"
      with Cons.IH [of "[]"] Cons.prems(3) show ?thesis by simp
    qed
  next
    case False
    with Cons.prems have "s \<in> set (regroup (split_capture d (piece @ [a]) cs))" by simp
    moreover have "\<forall>c\<in>set (piece @ [a]). \<not> d c" using Cons.prems(1) False by simp
    ultimately show ?thesis using Cons.IH [of "piece @ [a]"] Cons.prems(3) by blast
  qed
qed

lemma sentences_delimiter_last:
  "s \<in> set (sentences text) \<Longrightarrow> c \<in> set (butlast s) \<Longrightarrow> \<not> is_sentence_delimiter c"
  unfolding sentences_def js_split_def
  using regroup_split_capture_delims [of "[]" is_sentence_delimiter s "text" c] by simp

lemma sentences_nonempty: "s \<in> set (sentences text) \<Longrightarrow> s \<noteq> []"
proof -
  have "s \<in> set (regroup ps) \<Longrightarrow> s \<noteq> []" for ps
    by (induction ps rule: regroup.induct) (auto split: if_splits)
  then show "s \<in> set (sentences text) \<Longrightarrow> s \<noteq> []" by (simp add: sentences_def)
qed

lemma butlast_segment_subset:
  assumes "seg \<in> set segs"
  shows "set (butlast seg) \<subseteq> set (butlast (concat segs))"
proof -
  from assms obtain A B where segs: "segs = A @ seg # B" by (auto simp: in_set_conv_decomp)
  show ?thesis
  proof (cases "seg = []")
    case True
    then show ?thesis by simp
  next
    case False
    then show ?thesis
      by (cases "concat B = []") (auto simp: segs butlast_append dest: in_set_butlastD)
  qed
qed

lemma splitSentence_delimiter_last:
  assumes "\<forall>c\<in>set (butlast sentence). \<not> d c" "seg \<in> set (splitSentence maxLen sentence)"
  shows "\<forall>c\<in>set (butlast seg). \<not> d c"
  using butlast_segment_subset [OF assms(2)] assms(1)
  by (auto simp: concat_splitSentence)

lemma splitResult_delimiter_last:
  assumes "seg \<in> set (splitResult text maxLen)" "c \<in> set (butlast seg)"
  shows "\<not> is_sentence_delimiter c"
proof -
  from assms(1) obtain s where s: "s \<in> set (sentences text)" "seg \<in> set (splitSentence maxLen s)"
    by (auto simp: splitResult_def)
  have "\<forall>c\<in>set (butlast s). \<not> is_sentence_delimiter c"
    using sentences_delimiter_last [OF s(1)] by blast
  from splitSentence_delimiter_last [OF this s(2)] assms(2) show ?thesis by blast
qed


lemma in_set_dropWhile: "c \<in> set s \<Longrightarrow> \<not> P c \<Longrightarrow> c \<in> set (dropWhile P s)"
  by (induction s) auto

lemma trim_nonempty_iff: "trim s \<noteq> [] \<longleftrightarrow> (\<exists>c\<in>set s. \<not> is_whitespace c)"
proof
  assume "trim s \<noteq> []"
  then obtain c where "c \<in> set (dropWhile is_whitespace s)" "\<not> is_whitespace c"
    by (auto simp: trim_def dropWhile_eq_Nil_conv)
  then show "\<exists>c\<in>set s. \<not> is_whitespace c" by (blast dest: set_dropWhileD)
next
  assume "\<exists>c\<in>set s. \<not> is_whitespace c"
  then obtain c where c: "c \<in> set s" "\<not> is_whitespace c" by blast
  then have "c \<in> set (rev (dropWhile is_whitespace s))" by (simp add: in_set_dropWhile)
  then have "c \<in> set (dropWhile is_whitespace (rev (dropWhile is_whitespace s)))"
    using c(2) by (rule in_set_dropWhile)
  then have "dropWhile is_whitespace (rev (dropWhile is_whitespace s)) \<noteq> []"
    by (cases "dropWhile is_whitespace (rev (dropWhile is_whitespace s))") simp_all
  then show "trim s \<noteq> []" by (simp add: trim_def)
qed

lemma length_js_split_le:
  assumes "p \<in> set (js_split d s)"
  shows "length p \<le> length s"
proof -
  from assms obtain A B where "js_split d s = A @ p # B" by (auto simp: in_set_conv_decomp)
  then have "concat (js_split d s) = concat A @ p @ concat B" by simp
  then show ?thesis by (simp add: concat_js_split)
qed

text \<open>An oversized part goes through the inner loop alone.\<close>

lemma commaLoop_oversized_current:
  "maxLen < int (length p) \<Longrightarrow> p \<noteq> [] \<Longrightarrow> commaLoop maxLen p ys = p # commaLoop maxLen [] ys"
  by (cases ys) auto

lemma commaLoop_oversized:
  assumes "maxLen < int (length p)" "p \<noteq> []"
  shows "commaLoop maxLen current (xs @ p # ys) =
         commaLoop maxLen current xs @ p # commaLoop maxLen [] ys"
proof (induction xs arbitrary: current)
  case Nil
  show ?case using assms commaLoop_oversized_current [OF assms, of ys] by auto
next
  case (Cons x xs)
  then show ?case by simp
qed

lemma splitSentence_oversized:
  assumes "p \<in> set (js_split is_comma sentence)" "maxLen < int (length p)" "p \<noteq> []"
  shows "p \<in> set (splitSentence maxLen sentence)"
proof -
  from assms(1) obtain xs ys where parts: "js_split is_comma sentence = xs @ p # ys"
    by (auto simp: in_set_conv_decomp)
  have "maxLen < int (length sentence)"
    using length_js_split_le [OF assms(1)] assms(2) by simp
  then show ?thesis
    by (simp add: splitSentence_def parts commaLoop_oversized [OF assms(2,3)])
qed

text \<open>What the inner loop pushes is short enough, or the buffer it started with, or a part.\<close>

lemma commaLoop_cases:
  "s \<in> set (commaLoop maxLen current parts) \<Longrightarrow>
   int (length s) \<le> maxLen \<or> s = current \<or> s \<in> set parts"
proof (induction parts arbitrary: current)
  case Nil
  then show ?case by (auto split: if_splits)
next
  case (Cons part parts)
  show ?case
  proof (cases "int (length (current @ part)) \<le> maxLen")
    case True
    with Cons.prems have "s \<in> set (commaLoop maxLen (current @ part) parts)" by simp
    from Cons.IH [OF this] True show ?thesis by auto
  next
    case False
    with Cons.prems have "s = current \<or> s \<in> set (commaLoop maxLen part parts)"
      by (auto split: if_splits)
    then show ?thesis using Cons.IH [of part] by auto
  qed
qed

lemma commaLoop_nonempty: "s \<in> set (commaLoop maxLen current parts) \<Longrightarrow> s \<noteq> []"
  by (induction parts arbitrary: current) (auto split: if_splits)

text \<open>A part of a split is free of the class, or one code unit of the class.\<close>

lemma split_capture_parts:
  "\<forall>c\<in>set piece. \<not> d c \<Longrightarrow> p \<in> set (split_capture d piece cs) \<Longrightarrow>
   (\<forall>c\<in>set p. \<not> d c) \<or> length p = 1"
proof (induction cs arbitrary: piece)
  case Nil
  then show ?case by simp
next
  case (Cons a cs)
  show ?case
  proof (cases "d a")
    case True
    with Cons.prems have "p = piece \<or> p = [a] \<or> p \<in> set (split_capture d [] cs)" by auto
    then show ?thesis using Cons.prems(1) Cons.IH [of "[]"] by auto
  next
    case False
    with Cons.prems have "p \<in> set (split_capture d (piece @ [a]) cs)" by simp
    moreover have "\<forall>c\<in>set (piece @ [a]). \<not> d c" using Cons.prems(1) False by simp
    ultimately show ?thesis using Cons.IH [of "piece @ [a]"] by blast
  qed
qed

lemma js_split_parts: "p \<in> set (js_split d s) \<Longrightarrow> (\<forall>c\<in>set p. \<not> d c) \<or> length p = 1"
  unfolding js_split_def using split_capture_parts [of "[]" d p s] by simp

lemma splitSentence_cases:
  assumes "s \<in> set (splitSentence maxLen sentence)"
  shows "int (length s) \<le> maxLen \<or> s \<in> set (js_split is_comma sentence)"
proof (cases "int (length sentence) \<le> maxLen")
  case True
  with assms show ?thesis by (simp add: splitSentence_def)
next
  case False
  with assms have in_loop: "s \<in> set (commaLoop maxLen [] (js_split is_comma sentence))"
    by (simp add: splitSentence_def)
  from commaLoop_cases [OF in_loop] commaLoop_nonempty [OF in_loop] show ?thesis by auto
qed

lemma splitText_subset:
  "maxLen < int (length text) \<Longrightarrow> set (splitText text maxLen) \<subseteq> set (splitResult text maxLen)"
  by (auto simp: splitText_def)


text \<open>Where the cuts fall.\<close>

lemma commaLoop_hd:
  "commaLoop maxLen current parts \<noteq> [] \<Longrightarrow>
   hd (hd (commaLoop maxLen current parts)) = hd (current @ concat parts)"
proof (induction parts arbitrary: current)
  case Nil
  then show ?case by (simp split: if_splits)
next
  case (Cons part parts)
  show ?case
  proof (cases "int (length (current @ part)) \<le> maxLen")
    case True
    with Cons show ?thesis by simp
  next
    case False
    show ?thesis
    proof (cases "current = []")
      case True
      with False Cons show ?thesis by simp
    next
      case nonempty: False
      with False show ?thesis by simp
    qed
  qed
qed

lemma commaLoop_current: "current \<noteq> [] \<Longrightarrow> commaLoop maxLen current parts \<noteq> []"
  by (induction parts arbitrary: current) auto

lemma commaLoop_step:
  "successively R (commaLoop maxLen (current @ part) parts) \<Longrightarrow>
   successively R (commaLoop maxLen part parts) \<Longrightarrow>
   (current \<noteq> [] \<Longrightarrow> commaLoop maxLen part parts \<noteq> [] \<Longrightarrow>
      R current (hd (commaLoop maxLen part parts))) \<Longrightarrow>
   successively R (commaLoop maxLen current (part # parts))"
  by (auto simp: successively_Cons)

lemma commaLoop_cuts:
  "current = [] \<or> d (last current) \<Longrightarrow>
   successively (\<lambda>x y. d (last x) \<or> d (hd y))
     (commaLoop maxLen current (split_capture d piece cs))"
proof (induction cs arbitrary: current piece)
  case Nil
  let ?R = "\<lambda>x y. d (last x) \<or> d (hd y)"
  show ?case using Nil by (auto simp: successively_Cons)
next
  case (Cons c cs)
  let ?R = "\<lambda>x y. d (last x) \<or> d (hd y)"
  let ?rest = "split_capture d [] cs"
  show ?case
  proof (cases "d c")
    case False
    then show ?thesis using Cons.IH [OF Cons.prems, of "piece @ [c]"] by simp
  next
    case True
    have after: "successively ?R (commaLoop maxLen (cur @ [c]) ?rest)" for cur
      using True by (intro Cons.IH) simp
    have comma: "successively ?R (commaLoop maxLen cur ([c] # ?rest))" for cur
    proof (rule commaLoop_step)
      show "successively ?R (commaLoop maxLen (cur @ [c]) ?rest)" by (rule after)
      show "successively ?R (commaLoop maxLen [c] ?rest)" using after [of "[]"] by simp
      show "?R cur (hd (commaLoop maxLen [c] ?rest))" if "commaLoop maxLen [c] ?rest \<noteq> []"
        using commaLoop_hd [OF that] True by simp
    qed
    have "successively ?R (commaLoop maxLen current (piece # [c] # ?rest))"
    proof (rule commaLoop_step)
      show "successively ?R (commaLoop maxLen (current @ piece) ([c] # ?rest))" by (rule comma)
      show "successively ?R (commaLoop maxLen piece ([c] # ?rest))" by (rule comma)
      show "?R current (hd (commaLoop maxLen piece ([c] # ?rest)))" if "current \<noteq> []"
        using that Cons.prems by simp
    qed
    with True show ?thesis by simp
  qed
qed


lemma regroup_split_capture_ends:
  "successively (\<lambda>x y. d (last x)) (regroup (split_capture d piece cs))"
proof (induction cs arbitrary: piece)
  case Nil
  show ?case by simp
next
  case (Cons c cs)
  show ?case using Cons.IH [of "[]"] Cons.IH [of "piece @ [c]"]
    by (simp add: successively_Cons)
qed

lemma sentences_end_with_delimiter:
  "successively (\<lambda>x y. is_sentence_delimiter (last x)) (sentences text)"
  by (simp add: sentences_def js_split_def regroup_split_capture_ends)

lemma last_concat_nonempty:
  "segs \<noteq> [] \<Longrightarrow> last segs \<noteq> [] \<Longrightarrow> last (concat segs) = last (last segs)"
  by (induction segs) (auto simp: last_append)

lemma successively_concat_map:
  assumes "successively (\<lambda>x y. D x) xs"
    and "\<And>x. x \<in> set xs \<Longrightarrow> successively R (f x)"
    and "\<And>x y. x \<in> set xs \<Longrightarrow> D x \<Longrightarrow> f x \<noteq> [] \<Longrightarrow> R (last (f x)) y"
  shows "successively R (concat (map f xs))"
  using assms
proof (induction xs)
  case Nil
  show ?case by simp
next
  case (Cons x xs)
  have rest: "successively R (concat (map f xs))"
    using Cons.prems by (intro Cons.IH) (auto simp: successively_Cons)
  have "R (last (f x)) (hd (concat (map f xs)))" if "f x \<noteq> []" "concat (map f xs) \<noteq> []"
  proof -
    from that(2) have "xs \<noteq> []" by auto
    with Cons.prems(1) have "D x" by (auto simp: successively_Cons)
    with Cons.prems(3) [of x] that(1) show ?thesis by simp
  qed
  with rest Cons.prems(2) [of x] show ?case
    by (auto simp: successively_append_iff)
qed

lemma splitSentence_cuts: "successively cut_ok (splitSentence maxLen sentence)"
proof (cases "int (length sentence) \<le> maxLen")
  case True
  then show ?thesis by (simp add: splitSentence_def)
next
  case False
  have "successively (\<lambda>x y. is_comma (last x) \<or> is_comma (hd y))
          (commaLoop maxLen [] (split_capture is_comma [] sentence))"
    by (rule commaLoop_cuts) simp
  then have "successively cut_ok (commaLoop maxLen [] (split_capture is_comma [] sentence))"
    by (rule successively_mono) (auto simp: cut_ok_def)
  with False show ?thesis by (simp add: splitSentence_def js_split_def)
qed

lemma splitSentence_last:
  assumes "splitSentence maxLen sentence \<noteq> []"
  shows "last (last (splitSentence maxLen sentence)) = last sentence"
proof (cases "int (length sentence) \<le> maxLen")
  case True
  then show ?thesis by (simp add: splitSentence_def)
next
  case False
  with assms have "last (splitSentence maxLen sentence) \<in>
      set (commaLoop maxLen [] (js_split is_comma sentence))"
    by (simp add: splitSentence_def)
  then have "last (splitSentence maxLen sentence) \<noteq> []" by (rule commaLoop_nonempty)
  from last_concat_nonempty [OF assms this] show ?thesis
    by (simp add: concat_splitSentence)
qed

lemma splitResult_cuts: "successively cut_ok (splitResult text maxLen)"
  unfolding splitResult_def
proof (rule successively_concat_map [where D = "\<lambda>x. is_sentence_delimiter (last x)"])
  show "successively (\<lambda>x y. is_sentence_delimiter (last x)) (sentences text)"
    by (rule sentences_end_with_delimiter)
  show "successively cut_ok (splitSentence maxLen x)" for x
    by (rule splitSentence_cuts)
  show "cut_ok (last (splitSentence maxLen x)) y"
    if "is_sentence_delimiter (last x)" "splitSentence maxLen x \<noteq> []" for x y
    using that splitSentence_last [OF that(2)] by (simp add: cut_ok_def)
qed

lemma splitResult_nonempty: "s \<in> set (splitResult text maxLen) \<Longrightarrow> s \<noteq> []"
proof -
  assume "s \<in> set (splitResult text maxLen)"
  then obtain x where x: "x \<in> set (sentences text)" "s \<in> set (splitSentence maxLen x)"
    by (auto simp: splitResult_def)
  show ?thesis
  proof (cases "int (length x) \<le> maxLen")
    case True
    with x sentences_nonempty [OF x(1)] show ?thesis by (simp add: splitSentence_def)
  next
    case False
    with x(2) show ?thesis by (auto simp: splitSentence_def dest: commaLoop_nonempty)
  qed
qed

lemma length_sentence_le:
  assumes "s \<in> set (sentences text)"
  shows "length s \<le> length text"
proof -
  from assms obtain A B where "sentences text = A @ s # B" by (auto simp: in_set_conv_decomp)
  then have "concat (sentences text) = concat A @ s @ concat B" by simp
  then show ?thesis by (simp add: concat_sentences)
qed

text \<open>
  Claim C5. A text no longer than \<open>maxLen\<close> is returned as the one-element list holding
  it, unchanged: nothing is split and nothing is filtered.
\<close>

theorem splitText_short:
  "int (length text) \<le> maxLen \<Longrightarrow> splitText text maxLen = [text]"
  by (simp add: splitText_def)

theorem splitText_short_witness:
  "int (length (str ''Hi. Ok?'')) \<le> 200 \<and> splitText (str ''Hi. Ok?'') 200 = [str ''Hi. Ok?'']"
proof -
  have h: "int (length (str ''Hi. Ok?'')) \<le> 200" by (simp add: str_def)
  from splitText_short [OF h] h show ?thesis by simp
qed

text \<open>
  Claim C6 says that no returned segment is empty or whitespace-only, for every text and
  every \<open>maxLen\<close>. A text of one space is no longer than \<open>maxLen = 200\<close>, so it takes
  the early return and comes back as the only segment, although its trimmed content is
  empty.
\<close>

theorem splitText_blank_counterexample:
  "int (length (str '' '')) \<le> 200 \<and> splitText (str '' '') 200 = [str '' ''] \<and> trim (str '' '') = []"
  by (simp add: splitText_def str_def trim_def is_whitespace_def)

text \<open>
  Claim C6, amended. When the text is longer than \<open>maxLen\<close>, every returned segment has
  non-empty trimmed content: it holds a code unit that is not white space.
\<close>

theorem splitText_no_blank_segment:
  assumes "maxLen < int (length text)" "seg \<in> set (splitText text maxLen)"
  shows "trim seg \<noteq> [] \<and> (\<exists>c\<in>set seg. \<not> is_whitespace c)"
  using assms by (auto simp: splitText_def simp flip: trim_nonempty_iff)

theorem splitText_no_blank_segment_witness:
  "(1::int) < int (length [0x20, 0x0A, 0x20, 0x62 :: 16 word]) \<and>
   splitText [0x20, 0x0A, 0x20, 0x62] 1 = [ [0x20, 0x62] ] \<and>
   trim [0x20, 0x62] \<noteq> [] \<and> (\<exists>c\<in>set [0x20, 0x62 :: 16 word]. \<not> is_whitespace c)"
proof -
  have h1: "(1::int) < int (length [0x20, 0x0A, 0x20, 0x62 :: 16 word])" by simp
  have h2: "splitText [0x20, 0x0A, 0x20, 0x62] 1 = [ [0x20, 0x62] ]"
    by (simp add: splitText_def splitResult_def sentences_def js_split_def splitSentence_def
        trim_def is_whitespace_def is_sentence_delimiter_def is_comma_def)
  from splitText_no_blank_segment [OF h1, of "[0x20, 0x62]"] h1 h2 show ?thesis by simp
qed

text \<open>
  Claim C7 says that a comma-free part longer than \<open>maxLen\<close> is always emitted. A text of
  three spaces with \<open>maxLen = 2\<close> is one sentence and one comma-free part of length 3; the
  inner loop pushes it, and the final filter drops it, so nothing is returned.
\<close>

theorem splitText_blank_unit_counterexample:
  "str ''   '' \<in> set (sentences (str ''   '')) \<and>
   str ''   '' \<in> set (js_split is_comma (str ''   '')) \<and>
   \<not> (\<exists>c\<in>set (str ''   ''). is_comma c) \<and>
   2 < int (length (str ''   '')) \<and> splitText (str ''   '') 2 = []"
  by (simp add: splitText_def splitResult_def sentences_def js_split_def splitSentence_def
      trim_def is_whitespace_def is_sentence_delimiter_def is_comma_def str_def)

text \<open>
  Claim C7, amended. Let \<open>p\<close> be a part of the comma split of a tier-1 sentence, longer
  than \<open>maxLen\<close> and with non-empty trimmed content. Then the whole text is longer than
  \<open>maxLen\<close> and \<open>p\<close> itself is one of the returned segments: it is neither cut nor
  joined to a neighbour.
\<close>

theorem splitText_oversized_unit:
  assumes "sentence \<in> set (sentences text)" "p \<in> set (js_split is_comma sentence)"
    "maxLen < int (length p)" "trim p \<noteq> []"
  shows "maxLen < int (length text) \<and> p \<in> set (splitText text maxLen)"
proof -
  have "p \<noteq> []" using assms(4) by (auto simp: trim_def)
  from splitSentence_oversized [OF assms(2,3) this] assms(1)
  have "p \<in> set (splitResult text maxLen)" by (auto simp: splitResult_def)
  moreover have long: "maxLen < int (length text)"
    using length_js_split_le [OF assms(2)] length_sentence_le [OF assms(1)] assms(3) by simp
  ultimately show ?thesis using assms(4) by (simp add: splitText_def)
qed

theorem splitText_oversized_unit_witness:
  "str ''aaaaaa,bb.'' \<in> set (sentences (str ''aaaaaa,bb.'')) \<and>
   str ''aaaaaa'' \<in> set (js_split is_comma (str ''aaaaaa,bb.'')) \<and>
   3 < int (length (str ''aaaaaa'')) \<and> trim (str ''aaaaaa'') \<noteq> [] \<and>
   str ''aaaaaa'' \<in> set (splitText (str ''aaaaaa,bb.'') 3)"
proof -
  have h1: "str ''aaaaaa,bb.'' \<in> set (sentences (str ''aaaaaa,bb.''))"
    by (simp add: sentences_def js_split_def is_sentence_delimiter_def str_def)
  have h2: "str ''aaaaaa'' \<in> set (js_split is_comma (str ''aaaaaa,bb.''))"
    by (simp add: js_split_def is_comma_def str_def)
  have h3: "3 < int (length (str ''aaaaaa''))" by (simp add: str_def)
  have h4: "trim (str ''aaaaaa'') \<noteq> []" by (simp add: trim_def is_whitespace_def str_def)
  from splitText_oversized_unit [OF h1 h2 h3 h4] h1 h2 h3 h4 show ?thesis by simp
qed

text \<open>
  Claim C10 says that a returned segment holding a comma has length at most \<open>maxLen\<close>.
  With \<open>maxLen = 0\<close> the text \<open>,\<close> is returned as one segment: the comma is a part of its
  own, and no part fits into an empty buffer.
\<close>

theorem splitText_comma_counterexample:
  "0 < int (length (str '','')) \<and> splitText (str '','') 0 = [str '',''] \<and>
   is_comma (hd (str '',''))"
  by (simp add: splitText_def splitResult_def sentences_def js_split_def splitSentence_def
      trim_def is_whitespace_def is_sentence_delimiter_def is_comma_def str_def)

text \<open>
  Claim C10, amended. For \<open>maxLen\<close> at least 1 and a text longer than \<open>maxLen\<close>, every
  returned segment has length at most \<open>maxLen\<close>, or it holds no comma and is a single
  part of the comma split of a tier-1 sentence.
\<close>

theorem splitText_oversized_comma_free:
  assumes "1 \<le> maxLen" "maxLen < int (length text)" "seg \<in> set (splitText text maxLen)"
  shows "int (length seg) \<le> maxLen \<or>
         (\<forall>c\<in>set seg. \<not> is_comma c) \<and>
         (\<exists>sentence\<in>set (sentences text). seg \<in> set (js_split is_comma sentence))"
proof -
  from assms(2,3) have "seg \<in> set (splitResult text maxLen)" by (auto simp: splitText_def)
  then obtain s where s: "s \<in> set (sentences text)" "seg \<in> set (splitSentence maxLen s)"
    by (auto simp: splitResult_def)
  show ?thesis
  proof (cases "int (length seg) \<le> maxLen")
    case True
    then show ?thesis by simp
  next
    case False
    with splitSentence_cases [OF s(2)] have part: "seg \<in> set (js_split is_comma s)" by simp
    from False assms(1) have "length seg \<noteq> 1" by auto
    with js_split_parts [OF part] have "\<forall>c\<in>set seg. \<not> is_comma c" by simp
    with part s(1) show ?thesis by blast
  qed
qed

theorem splitText_oversized_comma_free_witness:
  "(1::int) \<le> 3 \<and> 3 < int (length (str ''aaaaaa,bb.'')) \<and>
   str ''aaaaaa'' \<in> set (splitText (str ''aaaaaa,bb.'') 3) \<and>
   \<not> int (length (str ''aaaaaa'')) \<le> 3 \<and>
   \<not> (\<exists>c\<in>set (str ''aaaaaa''). is_comma c) \<and>
   (\<exists>sentence\<in>set (sentences (str ''aaaaaa,bb.'')). str ''aaaaaa'' \<in> set (js_split is_comma sentence))"
proof -
  have h1: "(1::int) \<le> 3" by simp
  have h2: "3 < int (length (str ''aaaaaa,bb.''))" by (simp add: str_def)
  have h3: "str ''aaaaaa'' \<in> set (splitText (str ''aaaaaa,bb.'') 3)"
    by (simp add: splitText_def splitResult_def sentences_def js_split_def splitSentence_def
        trim_def is_whitespace_def is_sentence_delimiter_def is_comma_def str_def)
  have h4: "\<not> int (length (str ''aaaaaa'')) \<le> 3" by (simp add: str_def)
  from splitText_oversized_comma_free [OF h1 h2 h3] h1 h2 h3 h4 show ?thesis by simp
qed

text \<open>
  Claim C4 says that sentence delimiters stay attached to the end of their preceding
  content. In \<open>aaa,.\<close> with \<open>maxLen = 4\<close> the sentence is cut at its comma into the parts
  \<open>aaa\<close>, \<open>,\<close> and \<open>.\<close>; the buffer \<open>aaa,\<close> is full, so the delimiter becomes a segment
  of its own, apart from the content before it.
\<close>

theorem splitText_detached_delimiter_counterexample:
  "splitText (str ''aaa,.'') 4 = [str ''aaa,'', str ''.''] \<and> is_sentence_delimiter (hd (str ''.''))"
  by (simp add: splitText_def splitResult_def sentences_def js_split_def splitSentence_def
      trim_def is_whitespace_def is_sentence_delimiter_def is_comma_def str_def)

text \<open>
  Claim C4, amended. For every text and every \<open>maxLen\<close> there is a list of segments whose
  concatenation is the text, code unit for code unit, and \<open>splitText\<close> returns that list:
  whole when the text is no longer than \<open>maxLen\<close>, and without the segments of empty
  trimmed content otherwise. Two consecutive segments are cut directly after a sentence
  delimiter, or directly after or before a comma: a sentence delimiter stays attached to
  the content before it unless that content ends with a comma. When the text is split, no
  segment is empty and a sentence delimiter occurs in a segment only as its last code
  unit. The sentences of tier 1 concatenate to the text, none is empty, and a delimiter is
  the last code unit of its sentence, after the content that precedes it.
\<close>

theorem splitText_reconstructs:
  "(\<exists>segs. concat segs = text \<and>
      splitText text maxLen =
        (if int (length text) \<le> maxLen then segs else filter (\<lambda>s. trim s \<noteq> []) segs) \<and>
      successively cut_ok segs \<and>
      (maxLen < int (length text) \<longrightarrow>
        (\<forall>s\<in>set segs. s \<noteq> [] \<and> (\<forall>c\<in>set (butlast s). \<not> is_sentence_delimiter c)))) \<and>
   concat (sentences text) = text \<and>
   (\<forall>s\<in>set (sentences text). s \<noteq> [] \<and> (\<forall>c\<in>set (butlast s). \<not> is_sentence_delimiter c))"
proof (intro conjI)
  show "\<exists>segs. concat segs = text \<and>
      splitText text maxLen =
        (if int (length text) \<le> maxLen then segs else filter (\<lambda>s. trim s \<noteq> []) segs) \<and>
      successively cut_ok segs \<and>
      (maxLen < int (length text) \<longrightarrow>
        (\<forall>s\<in>set segs. s \<noteq> [] \<and> (\<forall>c\<in>set (butlast s). \<not> is_sentence_delimiter c)))"
  proof (cases "int (length text) \<le> maxLen")
    case True
    then show ?thesis by (intro exI [of _ "[text]"]) (simp add: splitText_def)
  next
    case False
    then show ?thesis
      by (intro exI [of _ "splitResult text maxLen"])
        (auto simp: splitText_def concat_splitResult splitResult_cuts
          dest: splitResult_delimiter_last splitResult_nonempty)
  qed
  show "concat (sentences text) = text" by (rule concat_sentences)
  show "\<forall>s\<in>set (sentences text). s \<noteq> [] \<and> (\<forall>c\<in>set (butlast s). \<not> is_sentence_delimiter c)"
    using sentences_nonempty sentences_delimiter_last by blast
qed

theorem splitText_reconstructs_witness:
  "(4::int) < int (length (str ''aaa,. b'')) \<and>
   (\<exists>segs. concat segs = str ''aaa,. b'' \<and>
      splitText (str ''aaa,. b'') 4 = filter (\<lambda>s. trim s \<noteq> []) segs \<and>
      successively cut_ok segs \<and>
      (\<forall>s\<in>set segs. s \<noteq> [] \<and> (\<forall>c\<in>set (butlast s). \<not> is_sentence_delimiter c)))"
proof -
  have h: "(4::int) < int (length (str ''aaa,. b''))" by (simp add: str_def)
  from splitText_reconstructs [of "str ''aaa,. b''" 4] h show ?thesis by simp
qed

section \<open>Properties of the request headers\<close>

text \<open>
  Claim C8. Whatever the digest, the time stamp and the access token of the call are,
  \<open>getHeaders\<close> returns the seven fields \<open>device-platform\<close>, \<open>timestamp\<close>,
  \<open>access-token\<close>, \<open>zm-token\<close>, \<open>zm-ver\<close>, \<open>zm-ua\<close> and \<open>User-Agent\<close>, each once;
  \<open>device-platform\<close> is \<open>Web\<close>, \<open>zm-ver\<close> is \<open>1.2\<close>, \<open>User-Agent\<close> is the fixed
  user agent, and \<open>zm-token\<close> is the digest of the values of \<open>device-platform\<close>,
  \<open>timestamp\<close>, \<open>zm-ver\<close>, \<open>access-token\<close> and \<open>zm-ua\<close>, concatenated in this order.
\<close>

theorem getHeaders_fields:
  "map fst (getHeaders md5 timestamp accessToken) =
     [str ''device-platform'', str ''timestamp'', str ''access-token'', str ''zm-token'',
      str ''zm-ver'', str ''zm-ua'', str ''User-Agent''] \<and>
   distinct (map fst (getHeaders md5 timestamp accessToken)) \<and>
   map_of (getHeaders md5 timestamp accessToken) (str ''device-platform'') = Some (str ''Web'') \<and>
   map_of (getHeaders md5 timestamp accessToken) (str ''zm-ver'') = Some (str ''1.2'') \<and>
   map_of (getHeaders md5 timestamp accessToken) (str ''User-Agent'') = Some ua \<and>
   (\<exists>device ts ver token zmUa.
      map_of (getHeaders md5 timestamp accessToken) (str ''device-platform'') = Some device \<and>
      map_of (getHeaders md5 timestamp accessToken) (str ''timestamp'') = Some ts \<and>
      map_of (getHeaders md5 timestamp accessToken) (str ''zm-ver'') = Some ver \<and>
      map_of (getHeaders md5 timestamp accessToken) (str ''access-token'') = Some token \<and>
      map_of (getHeaders md5 timestamp accessToken) (str ''zm-ua'') = Some zmUa \<and>
      map_of (getHeaders md5 timestamp accessToken) (str ''zm-token'') =
        Some (md5 (device @ ts @ ver @ token @ zmUa)))"
  by (simp add: getHeaders_def Let_def str_def)

section \<open>Properties of the fetch pipeline\<close>

lemma length_fold_fetchOne:
  "length (fold (fetchOne up texts voice) order results) = length results"
  by (induction order arbitrary: results) (simp_all add: fetchOne_def split: fetch_outcome.split)

lemma fetchOne_nth:
  "i < length results \<Longrightarrow>
   fetchOne up texts voice index results ! i =
     (if i = index then (case assembled (up (texts ! i) voice i) of
                           Some buf \<Rightarrow> Some buf | None \<Rightarrow> results ! i)
      else results ! i)"
  by (simp add: fetchOne_def split: fetch_outcome.split)

lemma fold_fetchOne_nth:
  "i < length results \<Longrightarrow>
   fold (fetchOne up texts voice) order results ! i =
     (if i \<in> set order then (case assembled (up (texts ! i) voice i) of
                               Some buf \<Rightarrow> Some buf | None \<Rightarrow> results ! i)
      else results ! i)"
proof (induction order arbitrary: results)
  case Nil
  then show ?case by simp
next
  case (Cons index order)
  have len: "i < length (fetchOne up texts voice index results)"
    using Cons.prems by (simp add: fetchOne_def split: fetch_outcome.split)
  show ?case
    using Cons.IH [OF len] Cons.prems
    by (auto simp: fetchOne_nth split: option.split)
qed

lemma yields_append: "yields (xs @ ys) = yields xs @ yields ys"
  by (induction xs rule: yields.induct) simp_all

lemma yields_Launch: "yields (map Launch is) = []"
  by (induction "is") simp_all

lemma yields_Settle: "yields (map Settle is) = []"
  by (induction "is") simp_all

lemma yields_yieldBatch:
  "yields (yieldBatch results b e) =
   List.map_filter (\<lambda>i. map_option (Pair i) (results ! i)) [b..<e]"
proof -
  have "yields (concat (map (\<lambda>i. case results ! i of Some buf \<Rightarrow> [Yield i buf] | None \<Rightarrow> []) is)) =
        List.map_filter (\<lambda>i. map_option (Pair i) (results ! i)) is" for "is"
    by (induction "is") (auto simp: yields_append List.map_filter_simps split: option.split)
  then show ?thesis by (simp add: yieldBatch_def)
qed

lemma map_filter_append: "List.map_filter f (xs @ ys) = List.map_filter f xs @ List.map_filter f ys"
  by (simp add: List.map_filter_def)

lemma map_filter_cong: "(\<And>x. x \<in> set xs \<Longrightarrow> f x = g x) \<Longrightarrow> List.map_filter f xs = List.map_filter g xs"
  by (induction xs) (simp_all add: List.map_filter_simps split: option.split)

lemma set_sched:
  "settles_each_task sched c n \<Longrightarrow> set (sched b) = {b..<min (b + c) n}"
  unfolding settles_each_task_def by (metis mset_eq_setD set_upt)

lemma yields_batchLoop:
  "0 < c \<Longrightarrow> settles_each_task sched c (length texts) \<Longrightarrow> length results = length texts \<Longrightarrow>
   \<forall>i. b \<le> i \<and> i < length texts \<longrightarrow> results ! i = None \<Longrightarrow>
   yields (batchLoop up sched texts voice c b results) =
   List.map_filter (\<lambda>i. map_option (Pair i) (assembled (up (texts ! i) voice i))) [b..<length texts]"
proof (induction up sched texts voice c b results rule: batchLoop.induct)
  case (1 up sched texts voice c b results)
  let ?n = "length texts"
  let ?f = "\<lambda>i. map_option (Pair i) (assembled (up (texts ! i) voice i))"
  show ?case
  proof (cases "b < ?n \<and> 0 < c")
    case False
    with "1.prems"(1) show ?thesis
      by (subst batchLoop.simps) (simp add: List.map_filter_simps)
  next
    case True
    define e where "e = min (b + c) ?n"
    define results' where "results' = fold (fetchOne up texts voice) (sched b) results"
    have order: "set (sched b) = {b..<e}"
      using set_sched [OF "1.prems"(2)] by (simp add: e_def)
    have len': "length results' = ?n"
      by (simp add: results'_def length_fold_fetchOne "1.prems"(3))
    have nth': "results' ! i = (if b \<le> i \<and> i < e then assembled (up (texts ! i) voice i) else results ! i)"
      if "i < ?n" for i
      using that "1.prems"(3,4) order
      by (auto simp: results'_def fold_fetchOne_nth split: option.split)
    have later: "\<forall>i. b + c \<le> i \<and> i < ?n \<longrightarrow> results' ! i = None"
      using nth' "1.prems"(4) by (auto simp: e_def)
    have rest: "yields (batchLoop up sched texts voice c (b + c) results') = List.map_filter ?f [b + c..<?n]"
      using "1.IH" [OF True refl refl refl "1.prems"(1,2)] len' later
      by (simp add: results'_def e_def)
    have batch: "yields (yieldBatch results' b e) = List.map_filter ?f [b..<e]"
      unfolding yields_yieldBatch
      by (rule map_filter_cong) (simp add: nth' e_def)
    have upt: "[b..<?n] = [b..<e] @ [b + c..<?n]"
    proof (cases "b + c \<le> ?n")
      case True
      then show ?thesis using upt_add_eq_append [of b "b + c" "?n - (b + c)"] by (simp add: e_def)
    next
      case False
      then show ?thesis by (simp add: e_def)
    qed
    have "batchLoop up sched texts voice c b results =
          map Launch [b..<e] @ map Settle (sched b) @ yieldBatch results' b e @
          batchLoop up sched texts voice c (b + c) results'"
      using True by (subst batchLoop.simps) (simp add: Let_def e_def results'_def)
    then show ?thesis
      by (simp add: yields_append yields_Launch yields_Settle batch rest upt map_filter_append)
  qed
qed


lemma append_eq_mid:
  "xs @ ys = pre @ ev # post \<Longrightarrow>
   (\<exists>q. xs = pre @ ev # q) \<or> (\<exists>p. pre = xs @ p \<and> ys = p @ ev # post)"
  by (auto simp: append_eq_append_conv2 append_eq_Cons_conv)

lemma batch_div:
  assumes "0 < c" "c dvd b" "b \<le> i" "i < b + c"
  shows "i div c = b div (c::nat)"
proof -
  from assms(2) obtain k where k: "b = c * k" by (auto simp: dvd_def)
  have "i div c = k"
    using assms(1,3,4) by (intro div_nat_eqI) (simp_all add: k)
  then show ?thesis using assms(1) by (simp add: k)
qed

lemma later_div:
  assumes "0 < c" "c dvd b" "b + c \<le> i"
  shows "b div c < i div (c::nat)"
proof -
  have "(b + c) div c \<le> i div c" using assms(3) by (rule div_le_mono)
  moreover have "(b + c) div c = b div c + 1" using assms(1) div_add_self2 [of c b] by simp
  ultimately show ?thesis by simp
qed

lemma in_yieldBatch:
  "ev \<in> set (yieldBatch results b e) \<Longrightarrow> \<exists>i buf. ev = Yield i buf \<and> b \<le> i \<and> i < e"
  by (auto simp: yieldBatch_def split: option.splits)

lemma batchLoop_barrier:
  "0 < c \<Longrightarrow> settles_each_task sched c (length texts) \<Longrightarrow> c dvd b \<Longrightarrow>
   batchLoop up sched texts voice c b results = pre @ ev # post \<Longrightarrow>
   (case ev of
      Launch i \<Rightarrow> b \<le> i \<and> (\<forall>j. b \<le> j \<and> j < length texts \<and> j div c < i div c \<longrightarrow> Settle j \<in> set pre)
    | Settle i \<Rightarrow> True
    | Yield i buf \<Rightarrow> b \<le> i \<and> (\<forall>j. b \<le> j \<and> j < length texts \<and> j div c = i div c \<longrightarrow> Settle j \<in> set pre))"
proof (induction up sched texts voice c b results arbitrary: pre rule: batchLoop.induct)
  case (1 up sched texts voice c b results)
  let ?n = "length texts"
  show ?case
  proof (cases "b < ?n \<and> 0 < c")
    case False
    with "1.prems"(4) show ?thesis by (subst (asm) batchLoop.simps) simp
  next
    case True
    define e where "e = min (b + c) ?n"
    define results' where "results' = fold (fetchOne up texts voice) (sched b) results"
    define L where "L = map Launch [b..<e]"
    define S where "S = map Settle (sched b)"
    define Y where "Y = yieldBatch results' b e"
    define rest where "rest = batchLoop up sched texts voice c (b + c) results'"
    have order: "set (sched b) = {b..<e}"
      using set_sched [OF "1.prems"(2)] by (simp add: e_def)
    have settled: "Settle j \<in> set S" if "b \<le> j" "j < ?n" "j < b + c" for j
      using that order by (auto simp: S_def e_def)
    have "batchLoop up sched texts voice c b results = L @ S @ Y @ rest"
      using True by (subst batchLoop.simps) (simp add: Let_def e_def results'_def L_def S_def Y_def rest_def)
    with "1.prems"(4) have tr: "L @ S @ Y @ rest = pre @ ev # post" by simp
    from append_eq_mid [OF tr] consider
        (inL) q where "L = pre @ ev # q"
      | (afterL) p where "pre = L @ p" "S @ Y @ rest = p @ ev # post"
      by blast
    then show ?thesis
    proof cases
      case inL
      then have "ev \<in> set L" by simp
      then obtain i where i: "ev = Launch i" "b \<le> i" "i < e" by (auto simp: L_def)
      have "i div c = b div c"
        using batch_div [OF "1.prems"(1,3) i(2)] i(3) by (simp add: e_def)
      moreover have "b div c \<le> j div c" if "b \<le> j" for j using that by (rule div_le_mono)
      ultimately show ?thesis using i by (auto simp: not_less [symmetric])
    next
      case afterL
      from append_eq_mid [OF afterL(2)] consider
          (inS) q where "S = p @ ev # q"
        | (afterS) p' where "p = S @ p'" "Y @ rest = p' @ ev # post"
        by blast
      then show ?thesis
      proof cases
        case inS
        then have "ev \<in> set S" by simp
        then show ?thesis by (auto simp: S_def)
      next
        case afterS
        from append_eq_mid [OF afterS(2)] consider
            (inY) q where "Y = p' @ ev # q"
          | (inRest) p'' where "p' = Y @ p''" "rest = p'' @ ev # post"
          by blast
        then show ?thesis
        proof cases
          case inY
          then have "ev \<in> set Y" by simp
          then obtain i buf where i: "ev = Yield i buf" "b \<le> i" "i < e"
            unfolding Y_def by (blast dest: in_yieldBatch)
          have idiv: "i div c = b div c"
            using batch_div [OF "1.prems"(1,3) i(2)] i(3) by (simp add: e_def)
          have "Settle j \<in> set pre" if j: "b \<le> j" "j < ?n" "j div c = i div c" for j
          proof -
            have "j < b + c"
            proof (rule ccontr)
              assume "\<not> j < b + c"
              then have "b div c < j div c" using later_div [OF "1.prems"(1,3), of j] by simp
              with j(3) idiv show False by simp
            qed
            from settled [OF j(1,2) this] show ?thesis by (simp add: afterL(1) afterS(1))
          qed
          then show ?thesis using i by simp
        next
          case inRest
          have dvd': "c dvd b + c" using "1.prems"(3) by simp
          have IH: "case ev of
              Launch i \<Rightarrow> b + c \<le> i \<and> (\<forall>j. b + c \<le> j \<and> j < ?n \<and> j div c < i div c \<longrightarrow> Settle j \<in> set p'')
            | Settle i \<Rightarrow> True
            | Yield i buf \<Rightarrow> b + c \<le> i \<and> (\<forall>j. b + c \<le> j \<and> j < ?n \<and> j div c = i div c \<longrightarrow> Settle j \<in> set p'')"
            using "1.IH" [OF True refl refl refl "1.prems"(1,2) dvd', of p''] inRest(2)
            by (simp add: rest_def results'_def)
          have pre: "pre = L @ S @ Y @ p''" by (simp add: afterL(1) afterS(1) inRest(1))
          show ?thesis
          proof (cases ev)
            case (Launch i)
            with IH have i: "b + c \<le> i" "\<And>j. b + c \<le> j \<Longrightarrow> j < ?n \<Longrightarrow> j div c < i div c \<Longrightarrow> Settle j \<in> set p''"
              by auto
            have "Settle j \<in> set pre" if j: "b \<le> j" "j < ?n" "j div c < i div c" for j
            proof (cases "j < b + c")
              case True
              from settled [OF j(1,2) this] show ?thesis by (simp add: pre)
            next
              case False
              then show ?thesis using i(2) [of j] j by (simp add: pre)
            qed
            then show ?thesis using Launch i(1) by simp
          next
            case (Settle i)
            then show ?thesis by simp
          next
            case (Yield i buf)
            with IH have i: "b + c \<le> i" "\<And>j. b + c \<le> j \<Longrightarrow> j < ?n \<Longrightarrow> j div c = i div c \<Longrightarrow> Settle j \<in> set p''"
              by auto
            have "Settle j \<in> set pre" if j: "b \<le> j" "j < ?n" "j div c = i div c" for j
            proof (cases "j < b + c")
              case True
              have "j div c = b div c" by (rule batch_div [OF "1.prems"(1,3) j(1) True])
              moreover have "b div c < i div c" by (rule later_div [OF "1.prems"(1,3) i(1)])
              ultimately show ?thesis using j(3) by simp
            next
              case False
              then show ?thesis using i(2) [of j] j by (simp add: pre)
            qed
            then show ?thesis using Yield i(1) by simp
          qed
        qed
      qed
    qed
  qed
qed



lemma map_fst_map_filter:
  "map fst (List.map_filter (\<lambda>i. map_option (Pair i) (g i)) xs) = filter (\<lambda>i. g i \<noteq> None) xs"
  by (induction xs) (auto simp: List.map_filter_simps split: option.split)

lemma map_snd_map_filter:
  "map snd (List.map_filter (\<lambda>i. map_option (Pair i) (g i)) xs) = List.map_filter g xs"
  by (induction xs) (auto simp: List.map_filter_simps split: option.split)

lemma yields_batchRun:
  assumes "1 < concurrency" "settles_each_task sched (nat concurrency) (length texts)"
  shows "yields (batchRun up sched texts voice concurrency) =
         List.map_filter (\<lambda>i. map_option (Pair i) (assembled (up (texts ! i) voice i))) [0..<length texts]"
  unfolding batchRun_def using assms by (intro yields_batchLoop) simp_all

lemma getAudioChunks_batched:
  assumes "1 < concurrency" "2 < length texts" "settles_each_task sched (nat concurrency) (length texts)"
  shows "getAudioChunks up sched texts voice concurrency =
         List.map_filter (\<lambda>i. assembled (up (texts ! i) voice i)) [0..<length texts]"
  using assms by (simp add: getAudioChunks_def yields_batchRun map_snd_map_filter)

text \<open>
  Claim C1. In batched mode (\<open>concurrency > 1\<close> and more than two segments), for every
  outcome of the upstream calls and every order in which the tasks of each batch end:
  the run yields the assembled buffer of each segment whose body was read to its end, and
  nothing else, in strictly ascending order of the segment index; the sequence
  \<open>getAudioChunks\<close> produces is the same for every such order; and in the run every task
  of a batch has ended before a buffer of that batch is yielded, and every task of the
  earlier batches has ended before a task is started.
\<close>

theorem getAudioChunks_batched_order:
  assumes "1 < concurrency" "2 < length texts"
    "settles_each_task sched (nat concurrency) (length texts)"
  shows "yields (batchRun up sched texts voice concurrency) =
           List.map_filter (\<lambda>i. map_option (Pair i) (assembled (up (texts ! i) voice i)))
             [0..<length texts] \<and>
         sorted_wrt (<) (map fst (yields (batchRun up sched texts voice concurrency))) \<and>
         getAudioChunks up sched texts voice concurrency =
           List.map_filter (\<lambda>i. assembled (up (texts ! i) voice i)) [0..<length texts] \<and>
         (\<forall>sched'. settles_each_task sched' (nat concurrency) (length texts) \<longrightarrow>
            getAudioChunks up sched' texts voice concurrency =
            getAudioChunks up sched texts voice concurrency) \<and>
         (\<forall>pre i buf post. batchRun up sched texts voice concurrency = pre @ Yield i buf # post \<longrightarrow>
            (\<forall>j<length texts. j div nat concurrency = i div nat concurrency \<longrightarrow>
               Settle j \<in> set pre)) \<and>
         (\<forall>pre i post. batchRun up sched texts voice concurrency = pre @ Launch i # post \<longrightarrow>
            (\<forall>j<length texts. j div nat concurrency < i div nat concurrency \<longrightarrow>
               Settle j \<in> set pre))"
proof (intro conjI allI impI)
  let ?run = "batchRun up sched texts voice concurrency"
  have c: "0 < nat concurrency" using assms(1) by simp
  show ys: "yields ?run = List.map_filter (\<lambda>i. map_option (Pair i) (assembled (up (texts ! i) voice i)))
             [0..<length texts]"
    by (rule yields_batchRun [OF assms(1,3)])
  show "sorted_wrt (<) (map fst (yields ?run))"
    unfolding ys map_fst_map_filter by (rule sorted_wrt_filter) simp
  show "getAudioChunks up sched texts voice concurrency =
           List.map_filter (\<lambda>i. assembled (up (texts ! i) voice i)) [0..<length texts]"
    by (rule getAudioChunks_batched [OF assms])
  show "getAudioChunks up sched' texts voice concurrency = getAudioChunks up sched texts voice concurrency"
    if "settles_each_task sched' (nat concurrency) (length texts)" for sched'
    by (simp add: getAudioChunks_batched [OF assms] getAudioChunks_batched [OF assms(1,2) that])
  show "Settle j \<in> set pre"
    if "?run = pre @ Yield i buf # post" "j < length texts" "j div nat concurrency = i div nat concurrency"
    for pre i buf post j
    using batchLoop_barrier [OF c assms(3), of 0 up voice "replicate (length texts) None" pre "Yield i buf" post]
      that by (simp add: batchRun_def)
  show "Settle j \<in> set pre"
    if "?run = pre @ Launch i # post" "j < length texts" "j div nat concurrency < i div nat concurrency"
    for pre i post j
    using batchLoop_barrier [OF c assms(3), of 0 up voice "replicate (length texts) None" pre "Launch i" post]
      that by (simp add: batchRun_def)
qed


theorem getAudioChunks_batched_order_witness:
  "(1::int) < 2 \<and> 2 < length [str ''a'', str ''b'', str ''c'', str ''d'', str ''e''] \<and>
   settles_each_task (\<lambda>b. rev [b..<min (b + 2) 5]) 2 5 \<and>
   getAudioChunks (\<lambda>t v i. Body [ [of_nat i] ]) (\<lambda>b. rev [b..<min (b + 2) 5])
     [str ''a'', str ''b'', str ''c'', str ''d'', str ''e''] (str ''DeepSeek'') 2 =
   [ [0], [1], [2], [3], [4] ]"
proof -
  let ?texts = "[str ''a'', str ''b'', str ''c'', str ''d'', str ''e'']"
  have h1: "(1::int) < 2" by simp
  have h2: "2 < length ?texts" by simp
  have h3: "settles_each_task (\<lambda>b. rev [b..<min (b + 2) 5]) 2 5"
    by (simp add: settles_each_task_def)
  have len: "length ?texts = 5" "nat 2 = 2" by simp_all
  have h3': "settles_each_task (\<lambda>b. rev [b..<min (b + 2) 5]) (nat 2) (length ?texts)"
    using h3 by (simp only: len)
  have upt: "[0..<5] = [0, 1, 2, 3, 4]" by (simp add: upt_rec)
  from getAudioChunks_batched_order [OF h1 h2 h3', of "\<lambda>t v i. Body [ [of_nat i] ]" "str ''DeepSeek''"]
  have "getAudioChunks (\<lambda>t v i. Body [ [of_nat i] ]) (\<lambda>b. rev [b..<min (b + 2) 5]) ?texts
          (str ''DeepSeek'') 2 =
        List.map_filter (\<lambda>i. assembled (Body [ [of_nat i] ])) [0..<length ?texts]"
    by blast
  then have eq: "getAudioChunks (\<lambda>t v i. Body [ [of_nat i] ]) (\<lambda>b. rev [b..<min (b + 2) 5]) ?texts
          (str ''DeepSeek'') 2 = [ [0], [1], [2], [3], [4] ]"
    by (simp only: len upt) (simp add: List.map_filter_simps)
  show ?thesis by (intro conjI) (rule h1 h2 h3 eq)+
qed

text \<open>
  Claim C2 says that for every segment list the sequence holds exactly the buffers of the
  segments that succeeded. Two segments are fetched in serial mode, which yields every
  chunk as it is read: when the first segment fails after one chunk has arrived and the
  second succeeds, that chunk of the failed segment is in the sequence.
\<close>

theorem getAudioChunks_serial_partial_counterexample:
  "getAudioChunks (\<lambda>t v i. if i = 0 then Failed [ [1] ] else Body [ [2] ]) (\<lambda>b. [b..<min (b + 3) 2])
     [str ''a'', str ''b''] (str ''DeepSeek'') 3 = [ [1], [2] ] \<and>
   List.map_filter (\<lambda>i. assembled (if i = 0 then Failed [ [1] ] else Body [ [2] ])) [0..<2] = [ [2] ]"
  by (simp add: getAudioChunks_def getAudioChunksSerial_def upt_rec List.map_filter_simps)

text \<open>
  Claim C2, amended. Let the call for segment \<open>k\<close> fail, after the chunks \<open>received\<close> had
  arrived, and let every other call deliver its whole body. In batched mode the sequence
  is exactly the assembled buffers of the other segments in ascending index order, with
  nothing standing for segment \<open>k\<close>. In serial mode it is the chunks of the segments before
  \<open>k\<close>, then \<open>received\<close>, then the chunks of the segments after \<open>k\<close>. In both modes every
  segment after the failed one is still fetched and the sequence runs to its end.
\<close>

theorem getAudioChunks_one_failure:
  assumes "k < length texts" "up (texts ! k) voice k = Failed received"
    "\<forall>i<length texts. i \<noteq> k \<longrightarrow> up (texts ! i) voice i = Body (chunks i)"
    "settles_each_task sched (nat concurrency) (length texts)"
  shows "getAudioChunks up sched texts voice concurrency =
     (if concurrency \<le> 1 \<or> length texts \<le> 2
      then concat (map chunks [0..<k]) @ received @ concat (map chunks [Suc k..<length texts])
      else map (\<lambda>i. concat (chunks i)) ([0..<k] @ [Suc k..<length texts]))"
proof -
  let ?n = "length texts"
  have "[0..<?n] = [0..<k] @ [k..<?n]"
    using upt_add_eq_append [of 0 k "?n - k"] assms(1) by simp
  then have upt: "[0..<?n] = [0..<k] @ k # [Suc k..<?n]"
    using assms(1) by (simp add: upt_conv_Cons)
  show ?thesis
  proof (cases "concurrency \<le> 1 \<or> ?n \<le> 2")
    case True
    have before: "map (\<lambda>i. delivered (up (texts ! i) voice i)) [0..<k] = map chunks [0..<k]"
      using assms(1,3) by (intro map_cong) auto
    have after: "map (\<lambda>i. delivered (up (texts ! i) voice i)) [Suc k..<?n] = map chunks [Suc k..<?n]"
      using assms(3) by (intro map_cong) auto
    show ?thesis
      using True assms(2)
      by (simp add: getAudioChunks_def getAudioChunksSerial_def upt before after)
  next
    case False
    then have batched: "1 < concurrency" "2 < ?n" by auto
    have before: "List.map_filter (\<lambda>i. assembled (up (texts ! i) voice i)) [0..<k] =
          List.map_filter (\<lambda>i. Some (concat (chunks i))) [0..<k]"
      using assms(1,3) by (intro map_filter_cong) auto
    have after: "List.map_filter (\<lambda>i. assembled (up (texts ! i) voice i)) [Suc k..<?n] =
          List.map_filter (\<lambda>i. Some (concat (chunks i))) [Suc k..<?n]"
      using assms(3) by (intro map_filter_cong) auto
    have all: "List.map_filter (\<lambda>i. Some (f i)) xs = map f xs" for f :: "nat \<Rightarrow> bytes" and xs
      by (induction xs) (simp_all add: List.map_filter_simps)
    show ?thesis
      using False assms(2)
      by (simp add: getAudioChunks_batched [OF batched assms(4)] upt map_filter_append
          List.map_filter_simps before after all)
  qed
qed

theorem getAudioChunks_one_failure_witness:
  "(2::nat) < length [str ''a'', str ''b'', str ''c'', str ''d'', str ''e''] \<and>
   settles_each_task (\<lambda>b. rev [b..<min (b + 3) 5]) 3 5 \<and>
   getAudioChunks (\<lambda>t v i. if i = 2 then Failed [ [9] ] else Body [ [of_nat i], [of_nat i + 10] ])
     (\<lambda>b. rev [b..<min (b + 3) 5])
     [str ''a'', str ''b'', str ''c'', str ''d'', str ''e''] (str ''DeepSeek'') 3 =
   [ [0, 10], [1, 11], [3, 13], [4, 14] ]"
proof -
  let ?texts = "[str ''a'', str ''b'', str ''c'', str ''d'', str ''e'']"
  let ?up = "\<lambda>(t::jsstring) (v::jsstring) (i::nat).
               if i = 2 then Failed [ [9] ] else Body [ [of_nat i], [of_nat i + 10] ]"
  have h1: "2 < length ?texts" by simp
  have h2: "?up (?texts ! 2) (str ''DeepSeek'') 2 = Failed [ [9] ]" by simp
  have h3: "\<forall>i<length ?texts. i \<noteq> 2 \<longrightarrow>
              ?up (?texts ! i) (str ''DeepSeek'') i = Body [ [of_nat i], [of_nat i + 10] ]" by simp
  have h4: "settles_each_task (\<lambda>b. rev [b..<min (b + 3) 5]) 3 5"
    by (simp add: settles_each_task_def)
  have len: "length ?texts = 5" "nat 3 = 3" by simp_all
  have h4': "settles_each_task (\<lambda>b. rev [b..<min (b + 3) 5]) (nat 3) (length ?texts)"
    using h4 by (simp only: len)
  have upt: "[0..<2] = [0, 1]" "[Suc 2..<5] = [3, 4]" by (simp_all add: upt_rec)
  from getAudioChunks_one_failure [OF h1 h2 h3 h4']
  have "getAudioChunks ?up (\<lambda>b. rev [b..<min (b + 3) 5]) ?texts (str ''DeepSeek'') 3 =
        map (\<lambda>i. concat [ [of_nat i], [of_nat i + 10] ]) ([0..<2] @ [Suc 2..<length ?texts])"
    by simp
  then have eq: "getAudioChunks ?up (\<lambda>b. rev [b..<min (b + 3) 5]) ?texts (str ''DeepSeek'') 3 =
        [ [0, 10], [1, 11], [3, 13], [4, 14] ]"
    by (simp only: len upt) simp
  show ?thesis by (intro conjI) (rule h1 h4 eq)+
qed

end
